theory Spec2Isabelle
  imports Main "HOL-Library.Multiset" "HOL-Library.Sublist" "HOL-Library.List_Lexorder"
    "HOL-Library.Product_Lexorder"
begin

section \<open>Shared Python primitives\<close>

text \<open>
  A card is the Python tuple \<open>(rank, suit)\<close>: the rank an unbounded integer (the decks
  build 2..14), the suit a one-character string (\<open>'c'\<close>, \<open>'h'\<close>, \<open>'s'\<close>, \<open>'d'\<close>).
  The evaluators accept any list of such tuples, so no range is imposed here.
\<close>

type_synonym playing_card = "int \<times> char"

text \<open>The exceptions the evaluators can raise.\<close>

datatype error = ValueError string | IndexError | StopIteration | KeyError

text \<open>
  \<open>collections.Counter(xs)\<close>: a dictionary from element to its number of occurrences,
  whose items come in order of first insertion. It is kept as an association list in
  that order, since \<open>next(... for r, c in rank_counts.items() ...)\<close> reads the order.
\<close>

fun counter_add :: "'a \<Rightarrow> ('a \<times> nat) list \<Rightarrow> ('a \<times> nat) list" where
  "counter_add x [] = [(x, 1)]"
| "counter_add x ((k, c) # kcs) =
     (if k = x then (k, Suc c) # kcs else (k, c) # counter_add x kcs)"

definition Counter :: "'a list \<Rightarrow> ('a \<times> nat) list" where
  "Counter xs = fold counter_add xs []"

text \<open>\<open>next(g)\<close> on a generator: the first element, \<open>StopIteration\<close> when there is none.\<close>

definition py_next :: "'a list \<Rightarrow> error + 'a" where
  "py_next xs = (case xs of [] \<Rightarrow> Inl StopIteration | x # _ \<Rightarrow> Inr x)"

text \<open>
  \<open>max(g)\<close>: \<open>ValueError\<close> on an empty iterable (the wording of its message is that
  of CPython up to 3.11).
\<close>

definition py_max :: "int list \<Rightarrow> error + int" where
  "py_max xs = (if xs = [] then Inl (ValueError ''max() arg is an empty sequence'')
                else Inr (Max (set xs)))"

text \<open>\<open>xs[i]\<close> for a literal index \<open>i \<ge> 0\<close>: \<open>IndexError\<close> out of range.\<close>

definition py_index :: "'a list \<Rightarrow> nat \<Rightarrow> error + 'a" where
  "py_index xs i = (if i < length xs then Inr (xs ! i) else Inl IndexError)"

text \<open>An exception raised by a subexpression leaves the function at once.\<close>

definition bind_err :: "error + 'a \<Rightarrow> ('a \<Rightarrow> error + 'b) \<Rightarrow> error + 'b" where
  "bind_err m f = (case m of Inl e \<Rightarrow> Inl e | Inr x \<Rightarrow> f x)"

text \<open>\<open>sorted(xs, reverse=True)\<close> on integers.\<close>

definition sorted_desc :: "int list \<Rightarrow> int list" where
  "sorted_desc xs = rev (sort xs)"

text \<open>
  \<open>itertools.combinations(xs, k)\<close>: the \<open>k\<close>-element subsequences of \<open>xs\<close>, in
  lexicographic order of their index tuples.
\<close>

fun combinations :: "'a list \<Rightarrow> nat \<Rightarrow> 'a list list" where
  "combinations xs 0 = [[]]"
| "combinations [] (Suc k) = []"
| "combinations (x # xs) (Suc k) =
     map ((#) x) (combinations xs k) @ combinations xs (Suc k)"

section \<open>poker.py (v0.1): \<open>evaluate_hand\<close> and \<open>texas_holdem_score\<close>\<close>

text \<open>
  \<open>evaluate_hand(cards)\<close> returns \<open>(hand_type, hand_rank, best_cards)\<close>. There is no
  check of \<open>len(cards)\<close>. \<open>max(ranks) - min(ranks)\<close> is only evaluated behind
  \<open>len(set(ranks)) == 5 and\<close>, hence on a non-empty list.
\<close>

definition evaluate_hand_v01 :: "playing_card list \<Rightarrow> error + (string \<times> int \<times> playing_card list)" where
  "evaluate_hand_v01 cards =
    (let ranks = sorted_desc (map fst cards);
         suits = map snd cards;
         rank_counts = Counter ranks;
         is_flush = (card (set suits) = 1);
         is_straight = (card (set ranks) = 5 \<and>
            (Max (set ranks) - Min (set ranks) = 4 \<or> ranks = [14, 5, 4, 3, 2]))
     in
      if is_flush \<and> ranks = [14, 13, 12, 11, 10] then Inr (''RF'', 10, cards)
      else if is_flush \<and> is_straight then Inr (''SF'', 9, cards)
      else if 4 \<in> set (map snd rank_counts) then
        bind_err (py_next [r. (r, c) \<leftarrow> rank_counts, c = 4]) (\<lambda>four_rank.
        bind_err (py_max [r. r \<leftarrow> ranks, r \<noteq> four_rank]) (\<lambda>kicker.
          Inr (''4k'', 8, [c. c \<leftarrow> cards, fst c = four_rank \<or> fst c = kicker])))
      else if 3 \<in> set (map snd rank_counts) \<and> 2 \<in> set (map snd rank_counts) then
        bind_err (py_next [r. (r, c) \<leftarrow> rank_counts, c = 3]) (\<lambda>three_rank.
        bind_err (py_next [r. (r, c) \<leftarrow> rank_counts, c = 2]) (\<lambda>pair_rank.
          Inr (''FH'', 7, [c. c \<leftarrow> cards, fst c \<in> set [three_rank, pair_rank]])))
      else if is_flush then Inr (''FL'', 6, cards)
      else if is_straight then Inr (''ST'', 5, cards)
      else if 3 \<in> set (map snd rank_counts) then
        bind_err (py_next [r. (r, c) \<leftarrow> rank_counts, c = 3]) (\<lambda>three_rank.
          (let kickers = take 2 (sorted_desc [r. r \<leftarrow> ranks, r \<noteq> three_rank])
           in Inr (''3K'', 4, [c. c \<leftarrow> cards, fst c = three_rank \<or> fst c \<in> set kickers])))
      else if count_list (map snd rank_counts) 2 \<ge> 2 then
        (let pair_ranks = take 2 (sorted_desc [r. (r, c) \<leftarrow> rank_counts, c = 2])
         in bind_err (py_max [r. r \<leftarrow> ranks, r \<notin> set pair_ranks]) (\<lambda>kicker.
              Inr (''2P'', 3, [c. c \<leftarrow> cards, fst c \<in> set pair_ranks \<or> fst c = kicker])))
      else if 2 \<in> set (map snd rank_counts) then
        bind_err (py_next [r. (r, c) \<leftarrow> rank_counts, c = 2]) (\<lambda>pair_rank.
          (let kickers = take 3 (sorted_desc [r. r \<leftarrow> ranks, r \<noteq> pair_rank])
           in Inr (''PR'', 2, [c. c \<leftarrow> cards, fst c = pair_rank \<or> fst c \<in> set kickers])))
      else Inr (''HC'', 1, cards))"

text \<open>
  \<open>texas_holdem_score\<close>: the loop over \<open>combinations(seven_cards, 5)\<close> carries
  \<open>best_score = (hand_type, hand_rank, best_cards, ranks)\<close>, which starts as
  \<open>(None, 0, [], [])\<close>; the comparison \<open>ranks > best_score[3]\<close> is Python's
  lexicographic comparison of lists.
\<close>

type_synonym score = "string option \<times> int \<times> playing_card list \<times> int list"

fun score_loop :: "playing_card list list \<Rightarrow> score \<Rightarrow> error + score" where
  "score_loop [] best_score = Inr best_score"
| "score_loop (combo # combos) best_score =
     bind_err (evaluate_hand_v01 combo) (\<lambda>(hand_type, hand_rank, best_cards).
       (let ranks = sorted_desc (map fst best_cards);
            current_score = (Some hand_type, hand_rank, best_cards, ranks)
        in score_loop combos
             (if fst (snd best_score) < hand_rank \<or>
                 (fst (snd best_score) = hand_rank \<and> ranks > snd (snd (snd best_score)))
              then current_score else best_score)))"

definition texas_holdem_score ::
    "playing_card list \<Rightarrow> error + (string option \<times> int \<times> playing_card list)" where
  "texas_holdem_score seven_cards =
     (if length seven_cards \<noteq> 7 then Inl (ValueError ''Exactly seven cards are required'')
      else bind_err (score_loop (combinations seven_cards 5) (None, 0, [], [])) (\<lambda>best_score.
             Inr (fst best_score, fst (snd best_score), fst (snd (snd best_score)))))"

section \<open>pokercombos.py (v2): \<open>evaluate_hand\<close> and the ranking loop\<close>

definition is_straight :: "int list \<Rightarrow> bool" where
  "is_straight ranks =
     (card (set ranks) = 5 \<and>
      (Max (set ranks) - Min (set ranks) = 4 \<or> sort ranks = [2, 3, 4, 5, 14]))"

definition is_flush :: "char list \<Rightarrow> bool" where
  "is_flush suits = (card (set suits) = 1)"

text \<open>
  \<open>sorted(counts.items(), key=lambda x: (x[1], x[0]), reverse=True)\<close>. Python's sort is
  stable and \<open>reverse=True\<close> keeps the original order of equal keys, which is the
  reverse of the stable ascending sort of the reversed list.
\<close>

definition get_rank_counts :: "int list \<Rightarrow> (int \<times> nat) list" where
  "get_rank_counts ranks =
     rev (sort_key (\<lambda>x. (snd x, fst x)) (rev (Counter ranks)))"

text \<open>
  An evaluation is the tuple \<open>(hand_type_rank, tiebreaker_tuple)\<close>; lower is better.
  The tiebreaker tuple is kept as a list: Python compares tuples as it compares lists,
  element by element with a proper prefix smaller.
\<close>

type_synonym evaluation = "int \<times> int list"

text \<open>
  \<open>straight_high\<close> is only assigned, and only read, when the hand is a straight.
\<close>

definition straight_high :: "int list \<Rightarrow> int" where
  "straight_high ranks = (if sort ranks = [2, 3, 4, 5, 14] then 5 else Max (set ranks))"

definition evaluate_hand_v2 :: "playing_card list \<Rightarrow> error + evaluation" where
  "evaluate_hand_v2 hand =
    (let ranks = map fst hand;
         suits = map snd hand;
         is_flush_hand = is_flush suits;
         is_straight_hand = is_straight ranks;
         rank_counts = get_rank_counts ranks
     in
      if is_straight_hand \<and> is_flush_hand then
        (if sort ranks = [10, 11, 12, 13, 14] \<and> is_flush_hand then Inr (0, [])
         else Inr (1, [- straight_high ranks]))
      else
      bind_err (py_index rank_counts 0) (\<lambda>rc0.
      if snd rc0 = 4 then
        bind_err (py_index rank_counts 1) (\<lambda>rc1.
          Inr (2, [- fst rc0, - fst rc1]))
      else
      bind_err (if snd rc0 = 3
                then bind_err (py_index rank_counts 1) (\<lambda>rc1. Inr (snd rc1 = 2))
                else Inr False) (\<lambda>full_house.
      if full_house then
        bind_err (py_index rank_counts 1) (\<lambda>rc1.
          Inr (3, [- fst rc0, - fst rc1]))
      else if is_flush_hand then Inr (4, map uminus (sorted_desc ranks))
      else if is_straight_hand then Inr (5, [- straight_high ranks])
      else if snd rc0 = 3 then
        bind_err (py_index rank_counts 1) (\<lambda>rc1.
        bind_err (py_index rank_counts 2) (\<lambda>rc2.
          (let kickers = sorted_desc [fst rc1, fst rc2]
           in Inr (6, [- fst rc0, - (kickers ! 0), - (kickers ! 1)]))))
      else
      bind_err (if snd rc0 = 2
                then bind_err (py_index rank_counts 1) (\<lambda>rc1. Inr (snd rc1 = 2))
                else Inr False) (\<lambda>two_pair.
      if two_pair then
        bind_err (py_index rank_counts 1) (\<lambda>rc1.
        bind_err (py_index rank_counts 2) (\<lambda>rc2.
          Inr (7, [- max (fst rc0) (fst rc1), - min (fst rc0) (fst rc1), - fst rc2])))
      else if snd rc0 = 2 then
        bind_err (py_index rank_counts 1) (\<lambda>rc1.
        bind_err (py_index rank_counts 2) (\<lambda>rc2.
        bind_err (py_index rank_counts 3) (\<lambda>rc3.
          (let kickers = sorted_desc [fst rc1, fst rc2, fst rc3]
           in Inr (8, [- fst rc0, - (kickers ! 0), - (kickers ! 1), - (kickers ! 2)])))))
      else Inr (9, map uminus (sorted_desc ranks))))))"

definition hand_names :: "(int \<times> string) list" where
  "hand_names = [(0, ''RF''), (1, ''SF''), (2, ''4K''), (3, ''FH''), (4, ''FL''),
                 (5, ''ST''), (6, ''3K''), (7, ''2P''), (8, ''1P''), (9, ''HC'')]"

definition get_hand_name :: "playing_card list \<Rightarrow> error + string" where
  "get_hand_name hand =
     bind_err (evaluate_hand_v2 hand) (\<lambda>evaluation.
       case map_of hand_names (fst evaluation) of None \<Rightarrow> Inl KeyError
       | Some name \<Rightarrow> Inr name)"

text \<open>
  The module-level ranking code, as a function of the list of hands (the script applies
  it to \<open>combinations(deck.cards, 5)\<close>). A row of \<open>df_data\<close> keeps the hand itself
  where the script stores its formatted text.
\<close>

record row =
  Hand :: "playing_card list"
  Type :: string
  Rank :: nat

fun hand_evaluations :: "playing_card list list \<Rightarrow> error + (playing_card list \<times> evaluation) list" where
  "hand_evaluations [] = Inr []"
| "hand_evaluations (hand # hands) =
     bind_err (evaluate_hand_v2 hand) (\<lambda>evaluation.
     bind_err (hand_evaluations hands) (\<lambda>rest.
       Inr ((hand, evaluation) # rest)))"

text \<open>
  The \<open>for i, (hand, evaluation) in enumerate(...)\<close> loop; the state is the index
  \<open>i\<close>, \<open>current_rank\<close> and \<open>prev_evaluation\<close> (\<open>None\<close> before the first hand).
\<close>

fun rank_loop ::
    "nat \<Rightarrow> (playing_card list \<times> evaluation) list \<Rightarrow> nat \<Rightarrow> evaluation option \<Rightarrow> error + row list" where
  "rank_loop i [] current_rank prev_evaluation = Inr []"
| "rank_loop i ((hand, evaluation) # rest) current_rank prev_evaluation =
     (let current_rank' = (if Some evaluation \<noteq> prev_evaluation then i + 1 else current_rank)
      in bind_err (get_hand_name hand) (\<lambda>name.
         bind_err (rank_loop (i + 1) rest current_rank' (Some evaluation)) (\<lambda>rows.
           Inr (\<lparr>Hand = hand, Type = name, Rank = current_rank'\<rparr> # rows))))"

definition rank_all :: "playing_card list list \<Rightarrow> error + row list" where
  "rank_all all_hands =
     bind_err (hand_evaluations all_hands) (\<lambda>evals.
       rank_loop 0 (sort_key snd evals) 1 None)"

section \<open>Auxiliary definitions for the proofs\<close>

text \<open>The number of occurrences an association list of counts records for a key.\<close>

definition cnt :: "('a \<times> nat) list \<Rightarrow> 'a \<Rightarrow> nat" where
  "cnt kcs r = (case map_of kcs r of None \<Rightarrow> 0 | Some c \<Rightarrow> c)"

text \<open>
  The loop of \<open>texas_holdem_score\<close> over the already computed results of
  \<open>evaluate_hand\<close>; \<open>score_loop_fold\<close> below shows it is the same loop.
\<close>

fun score_fold ::
    "(error + (string \<times> int \<times> playing_card list)) list \<Rightarrow> score \<Rightarrow> error + score" where
  "score_fold [] best_score = Inr best_score"
| "score_fold (Inl e # rs) best_score = Inl e"
| "score_fold (Inr (hand_type, hand_rank, best_cards) # rs) best_score =
     score_fold rs
       (if fst (snd best_score) < hand_rank \<or>
           (fst (snd best_score) = hand_rank \<and>
            sorted_desc (map fst best_cards) > snd (snd (snd best_score)))
        then (Some hand_type, hand_rank, best_cards, sorted_desc (map fst best_cards))
        else best_score)"

text \<open>
  The ten categories: the label and numeric rank of poker.py (10 is best) beside the
  category index of pokercombos.py (0 is best).
\<close>

definition category_table :: "(string \<times> int \<times> int) list" where
  "category_table =
     [(''RF'', 10, 0), (''SF'', 9, 1), (''4k'', 8, 2), (''FH'', 7, 3), (''FL'', 6, 4),
      (''ST'', 5, 5), (''3K'', 4, 6), (''2P'', 3, 7), (''PR'', 2, 8), (''HC'', 1, 9)]"

text \<open>The labels \<open>evaluate_hand\<close> of poker.py can return, each with its numeric rank.\<close>

definition hand_labels :: "(string \<times> int) list" where
  "hand_labels =
     [(''RF'', 10), (''SF'', 9), (''4k'', 8), (''FH'', 7), (''FL'', 6),
      (''ST'', 5), (''3K'', 4), (''2P'', 3), (''PR'', 2), (''HC'', 1)]"

text \<open>
  The order on hands that the evaluations of pokercombos.py induce. The script sorts by
  the evaluation tuple and a lower tuple is a better hand, so \<open>h1\<close> is below \<open>h2\<close>
  when the tuple of \<open>h2\<close> is the smaller one; the hands tie when the tuples are equal.
\<close>

definition hand_less :: "playing_card list \<Rightarrow> playing_card list \<Rightarrow> bool" where
  "hand_less h1 h2 =
     (case evaluate_hand_v2 h1 of Inl e \<Rightarrow> False
      | Inr k1 \<Rightarrow> (case evaluate_hand_v2 h2 of Inl e \<Rightarrow> False | Inr k2 \<Rightarrow> k2 < k1))"

definition hand_tied :: "playing_card list \<Rightarrow> playing_card list \<Rightarrow> bool" where
  "hand_tied h1 h2 =
     (case evaluate_hand_v2 h1 of Inl e \<Rightarrow> False
      | Inr k1 \<Rightarrow> (case evaluate_hand_v2 h2 of Inl e \<Rightarrow> False | Inr k2 \<Rightarrow> k1 = k2))"


section \<open>\<open>Counter\<close> and \<open>get_rank_counts\<close>\<close>

lemma counter_add_keys: "fst ` set (counter_add x kcs) = insert x (fst ` set kcs)"
  by (induction x kcs rule: counter_add.induct) auto

lemma counter_add_distinct:
  "distinct (map fst kcs) \<Longrightarrow> distinct (map fst (counter_add x kcs))"
proof (induction x kcs rule: counter_add.induct)
  case (1 x) show ?case by simp
next
  case (2 x k c kcs)
  have "fst ` set (counter_add x kcs) = insert x (fst ` set kcs)" by (rule counter_add_keys)
  with 2 show ?case by auto
qed

lemma counter_add_cnt: "cnt (counter_add x kcs) r = cnt kcs r + (if r = x then 1 else 0)"
  by (induction x kcs rule: counter_add.induct) (auto simp: cnt_def)

lemma fold_counter_add_keys:
  "fst ` set (fold counter_add xs acc) = set xs \<union> fst ` set acc"
  by (induction xs arbitrary: acc) (auto simp: counter_add_keys)

lemma fold_counter_add_distinct:
  "distinct (map fst acc) \<Longrightarrow> distinct (map fst (fold counter_add xs acc))"
  by (induction xs arbitrary: acc) (auto simp: counter_add_distinct)

lemma fold_counter_add_cnt:
  "cnt (fold counter_add xs acc) r = cnt acc r + count_list xs r"
  by (induction xs arbitrary: acc) (auto simp: counter_add_cnt)

lemma Counter_keys: "fst ` set (Counter xs) = set xs"
  by (simp add: Counter_def fold_counter_add_keys)

lemma Counter_distinct: "distinct (map fst (Counter xs))"
  by (simp add: Counter_def fold_counter_add_distinct)

lemma Counter_cnt: "cnt (Counter xs) r = count_list xs r"
proof -
  have "cnt [] r = 0" by (simp add: cnt_def)
  then show ?thesis by (simp add: Counter_def fold_counter_add_cnt)
qed

lemma Counter_set: "set (Counter xs) = (\<lambda>r. (r, count_list xs r)) ` set xs"
proof (rule set_eqI)
  fix p :: "'a \<times> nat"
  obtain r c where p: "p = (r, c)" by (cases p)
  have "(r, c) \<in> set (Counter xs) \<longleftrightarrow> map_of (Counter xs) r = Some c"
    by (simp add: Counter_distinct)
  also have "\<dots> \<longleftrightarrow> r \<in> set xs \<and> c = count_list xs r"
  proof
    assume m: "map_of (Counter xs) r = Some c"
    then have "r \<in> fst ` set (Counter xs)" by (force dest: map_of_SomeD)
    moreover from m have "cnt (Counter xs) r = c" by (simp add: cnt_def)
    ultimately show "r \<in> set xs \<and> c = count_list xs r" by (simp add: Counter_keys Counter_cnt)
  next
    assume a: "r \<in> set xs \<and> c = count_list xs r"
    then have "r \<in> fst ` set (Counter xs)" by (simp add: Counter_keys)
    then obtain c' where c': "map_of (Counter xs) r = Some c'"
      by (metis domD dom_map_of_conv_image_fst)
    then have "cnt (Counter xs) r = c'" by (simp add: cnt_def)
    with a c' show "map_of (Counter xs) r = Some c" by (simp add: Counter_cnt)
  qed
  finally show "p \<in> set (Counter xs) \<longleftrightarrow> p \<in> (\<lambda>r. (r, count_list xs r)) ` set xs"
    using p by auto
qed

lemma Counter_mset_cong:
  assumes "mset xs = mset ys"
  shows "mset (Counter xs) = mset (Counter ys)"
proof -
  have d: "distinct (Counter xs)" "distinct (Counter ys)"
    using Counter_distinct distinct_map by blast+
  have s: "set xs = set ys" using assms by (rule mset_eq_setD)
  have c: "count_list xs r = count_list ys r" for r
    using assms by (metis count_mset)
  have "set (Counter xs) = set (Counter ys)" by (simp add: Counter_set s c)
  with d show ?thesis by (simp add: set_eq_iff_mset_eq_distinct)
qed

lemma get_rank_counts_cong:
  assumes "mset xs = mset ys"
  shows "get_rank_counts xs = get_rank_counts ys"
proof -
  let ?f = "\<lambda>x::int \<times> nat. (snd x, fst x)"
  have "inj ?f" by (auto simp: inj_on_def prod_eq_iff)
  then have i: "inj_on ?f (set (rev (Counter xs)))" by (rule inj_on_subset) simp
  have m: "mset (rev (Counter xs)) = mset (sort_key ?f (rev (Counter ys)))"
    using Counter_mset_cong [OF assms] by simp
  have "sort_key ?f (rev (Counter xs)) = sort_key ?f (rev (Counter ys))"
    by (rule sort_key_inj_key_eq [OF m i]) simp
  then show ?thesis by (simp add: get_rank_counts_def)
qed

lemma length5_list:
  assumes "length ys = 5"
  obtains a b c d e where "ys = [a, b, c, d, e]"
  using assms by (auto simp: length_Suc_conv eval_nat_numeral)

lemma length5_sorted:
  assumes "length (xs :: int list) = 5"
  obtains a b c d e where "sort xs = [a, b, c, d, e]" "a \<le> b" "b \<le> c" "c \<le> d" "d \<le> e"
proof -
  have "length (sort xs) = 5" using assms by simp
  then obtain a b c d e where s: "sort xs = [a, b, c, d, e]"
    by (rule length5_list)
  have "sorted (sort xs)" by simp
  then have "a \<le> b" "b \<le> c" "c \<le> d" "d \<le> e" unfolding s by auto
  with s that show thesis by blast
qed

section \<open>Hands of five cards\<close>

lemma hand5_facts:
  assumes "length (hand :: playing_card list) = 5"
  obtains a b c d e where
    "a \<le> b" "b \<le> c" "c \<le> d" "d \<le> e"
    "sort (map fst hand) = [a, b, c, d, e]"
    "sorted_desc (map fst hand) = [e, d, c, b, a]"
    "set (map fst hand) = {a, b, c, d, e}"
    "get_rank_counts (map fst hand) = get_rank_counts [a, b, c, d, e]"
proof -
  have "length (map fst hand) = 5" using assms by simp
  then obtain a b c d e where s: "sort (map fst hand) = [a, b, c, d, e]"
    and o: "a \<le> b" "b \<le> c" "c \<le> d" "d \<le> e"
    by (rule length5_sorted)
  have "mset (map fst hand) = mset (sort (map fst hand))" by simp
  then have g: "get_rank_counts (map fst hand) = get_rank_counts [a, b, c, d, e]"
    unfolding s by (rule get_rank_counts_cong)
  have "set (map fst hand) = set (sort (map fst hand))" by simp
  then have t: "set (map fst hand) = {a, b, c, d, e}" unfolding s by simp
  have "sorted_desc (map fst hand) = [e, d, c, b, a]" by (simp add: sorted_desc_def s)
  with s o g t that show thesis by blast
qed

lemma eval5_agree:
  assumes "length (hand :: playing_card list) = 5"
  shows "\<exists>t r cs k. evaluate_hand_v01 hand = Inr (t, r, cs) \<and> evaluate_hand_v2 hand = Inr k
            \<and> (t, r, fst k) \<in> set category_table"
proof -
  from assms obtain a b c d e where o: "a \<le> b" "b \<le> c" "c \<le> d" "d \<le> e"
    and f: "sort (map fst hand) = [a, b, c, d, e]"
      "sorted_desc (map fst hand) = [e, d, c, b, a]"
      "set (map fst hand) = {a, b, c, d, e}"
      "get_rank_counts (map fst hand) = get_rank_counts [a, b, c, d, e]"
    by (rule hand5_facts)
  from o have cases: "a = b \<or> a < b" "b = c \<or> b < c" "c = d \<or> c < d" "d = e \<or> d < e"
    by auto
  show ?thesis
    unfolding evaluate_hand_v2_def evaluate_hand_v01_def is_straight_def straight_high_def
      is_flush_def [symmetric] Let_def
    unfolding f
    using cases
    by (elim disjE;
        simp add: Counter_def get_rank_counts_def py_index_def py_next_def py_max_def
          bind_err_def sorted_desc_def category_table_def)
qed

section \<open>Evaluating the best-of-seven loop\<close>

lemma score_loop_fold: "score_loop combos b = score_fold (map evaluate_hand_v01 combos) b"
proof (induction combos arbitrary: b)
  case Nil
  show ?case by simp
next
  case (Cons c cs)
  show ?case
  proof (cases "evaluate_hand_v01 c")
    case (Inl e)
    then show ?thesis by (simp add: bind_err_def)
  next
    case (Inr r)
    obtain t k bc where r: "r = (t, k, bc)" by (cases r)
    show ?thesis using Inr r Cons.IH by (simp add: bind_err_def Let_def)
  qed
qed

section \<open>Particular hands, suits and the order of the cards\<close>

lemma sorted_ranks_facts:
  assumes "sort (map fst (hand :: playing_card list)) = xs"
  shows "set (map fst hand) = set xs"
    and "get_rank_counts (map fst hand) = get_rank_counts xs"
    and "sorted_desc (map fst hand) = rev xs"
proof -
  have "set (map fst hand) = set (sort (map fst hand))" by simp
  then show "set (map fst hand) = set xs" unfolding assms .
  have "mset (map fst hand) = mset (sort (map fst hand))" by simp
  then have "mset (map fst hand) = mset xs" unfolding assms .
  then show "get_rank_counts (map fst hand) = get_rank_counts xs"
    by (rule get_rank_counts_cong)
  show "sorted_desc (map fst hand) = rev xs" by (simp add: sorted_desc_def assms)
qed

lemma mset_ranks_sort:
  assumes "mset (map fst (hand :: playing_card list)) = mset xs" "sorted xs"
  shows "sort (map fst hand) = xs"
  using assms by (metis properties_for_sort)

lemma is_flush_iff:
  assumes "suits \<noteq> []"
  shows "is_flush suits \<longleftrightarrow> (\<forall>s \<in> set suits. s = hd suits)"
proof
  assume "is_flush suits"
  then obtain x where x: "set suits = {x}" by (auto simp: is_flush_def card_1_singleton_iff)
  with assms have "hd suits = x" by (metis hd_in_set singletonD)
  with x show "\<forall>s \<in> set suits. s = hd suits" by simp
next
  assume a: "\<forall>s \<in> set suits. s = hd suits"
  with assms have "set suits = {hd suits}" by auto
  then show "is_flush suits" by (simp add: is_flush_def)
qed

lemma mixed_suits_not_flush:
  assumes "c1 \<in> set hand" "c2 \<in> set hand" "snd c1 \<noteq> snd c2"
  shows "\<not> is_flush (map snd hand)"
proof
  assume "is_flush (map snd hand)"
  then obtain x where x: "set (map snd hand) = {x}" by (auto simp: is_flush_def card_1_singleton_iff)
  from assms(1,2) have "snd c1 \<in> set (map snd hand)" "snd c2 \<in> set (map snd hand)" by auto
  with x assms(3) show False by auto
qed

lemma same_suit_flush:
  assumes "hand \<noteq> []" "\<forall>c \<in> set hand. snd c = s"
  shows "is_flush (map snd hand)"
proof -
  from assms have "set (map snd hand) = {s}" by (cases hand) auto
  then show ?thesis by (simp add: is_flush_def)
qed

lemma wheel_v2:
  assumes "sort (map fst hand) = [2, 3, 4, 5, 14]" "\<not> is_flush (map snd hand)"
  shows "evaluate_hand_v2 hand = Inr (5, [- 5])"
  unfolding evaluate_hand_v2_def is_straight_def straight_high_def Let_def
  unfolding sorted_ranks_facts [OF assms(1)] assms(1)
  using assms(2)
  by (simp add: Counter_def get_rank_counts_def py_index_def bind_err_def sorted_desc_def)

lemma wheel_v01:
  assumes "sort (map fst hand) = [2, 3, 4, 5, 14]" "\<not> is_flush (map snd hand)"
  shows "evaluate_hand_v01 hand = Inr (''ST'', 5, hand)"
  unfolding evaluate_hand_v01_def is_flush_def [symmetric] Let_def
  unfolding sorted_ranks_facts [OF assms(1)]
  using assms(2)
  by (simp add: Counter_def py_next_def py_max_def bind_err_def sorted_desc_def)

lemma six_high_v2:
  assumes "sort (map fst hand) = [2, 3, 4, 5, 6]" "\<not> is_flush (map snd hand)"
  shows "evaluate_hand_v2 hand = Inr (5, [- 6])"
  unfolding evaluate_hand_v2_def is_straight_def straight_high_def Let_def
  unfolding sorted_ranks_facts [OF assms(1)] assms(1)
  using assms(2)
  by (simp add: Counter_def get_rank_counts_def py_index_def bind_err_def sorted_desc_def)

lemma broadway_v2:
  assumes "sort (map fst hand) = [10, 11, 12, 13, 14]"
  shows "evaluate_hand_v2 hand = (if is_flush (map snd hand) then Inr (0, []) else Inr (5, [- 14]))"
  unfolding evaluate_hand_v2_def is_straight_def straight_high_def Let_def
  unfolding sorted_ranks_facts [OF assms(1)] assms(1)
  by (simp add: Counter_def get_rank_counts_def py_index_def bind_err_def sorted_desc_def)

lemma broadway_v01:
  assumes "sort (map fst hand) = [10, 11, 12, 13, 14]"
  shows "evaluate_hand_v01 hand =
     (if is_flush (map snd hand) then Inr (''RF'', 10, hand) else Inr (''ST'', 5, hand))"
  unfolding evaluate_hand_v01_def is_flush_def [symmetric] Let_def
  unfolding sorted_ranks_facts [OF assms(1)]
  by (simp add: Counter_def py_next_def py_max_def bind_err_def sorted_desc_def)

lemma evaluate_hand_v2_cong:
  assumes "mset (map fst h1) = mset (map fst h2)"
    and "is_flush (map snd h1) = is_flush (map snd h2)"
  shows "evaluate_hand_v2 h1 = evaluate_hand_v2 h2"
proof -
  have s: "sort (map fst h1) = sort (map fst h2)"
    using assms(1) by (metis properties_for_sort sorted_sort mset_sort)
  have t: "set (map fst h1) = set (map fst h2)" using assms(1) by (rule mset_eq_setD)
  have g: "get_rank_counts (map fst h1) = get_rank_counts (map fst h2)"
    using assms(1) by (rule get_rank_counts_cong)
  show ?thesis
    unfolding evaluate_hand_v2_def is_straight_def straight_high_def sorted_desc_def Let_def
    unfolding s t g assms(2) ..
qed

lemma comprehension_filter:
  "concat (map (\<lambda>x. if P x then [x] else []) xs) = filter P xs"
  by (induction xs) auto

lemma evaluate_hand_v01_subseq:
  assumes "evaluate_hand_v01 cards = Inr (t, r, cs)"
  shows "subseq cs cards"
  using assms unfolding evaluate_hand_v01_def Let_def bind_err_def
  by (auto simp: comprehension_filter split: if_splits sum.splits)

section \<open>Combinations and the loop of \<open>texas_holdem_score\<close>\<close>

lemma combinations_length: "c \<in> set (combinations xs k) \<Longrightarrow> length c = k"
  by (induction xs k arbitrary: c rule: combinations.induct) auto

lemma combinations_count: "length (combinations xs k) = length xs choose k"
  by (induction xs k rule: combinations.induct) auto

lemma combinations_sub: "c \<in> set (combinations xs k) \<Longrightarrow> subseq c xs"
  by (induction xs k arbitrary: c rule: combinations.induct) auto

lemma evaluate_hand_v01_label:
  assumes "evaluate_hand_v01 cards = Inr (t, r, cs)"
  shows "(t, r) \<in> set hand_labels"
  using assms unfolding evaluate_hand_v01_def Let_def bind_err_def hand_labels_def
  by (auto split: if_splits sum.splits)

lemma eval5_v01: "length hand = 5 \<Longrightarrow> \<exists>t r cs. evaluate_hand_v01 hand = Inr (t, r, cs)"
  using eval5_agree by blast

lemma eval5_v2:
  assumes "length hand = 5"
  shows "\<exists>k. evaluate_hand_v2 hand = Inr k \<and> fst k \<in> fst ` set hand_names"
proof -
  from assms obtain t r k where "evaluate_hand_v2 hand = Inr k" "(t, r, fst k) \<in> set category_table"
    using eval5_agree by blast
  then show ?thesis by (auto simp: category_table_def hand_names_def)
qed

lemma score_loop_total:
  assumes "\<forall>c \<in> set combos. length c = 5"
  shows "\<exists>res. score_loop combos best = Inr res"
  using assms
proof (induction combos arbitrary: best)
  case Nil
  show ?case by (simp del: split_paired_Ex)
next
  case (Cons c cs)
  then have "length c = 5" by simp
  then obtain t r bc where e: "evaluate_hand_v01 c = Inr (t, r, bc)" using eval5_v01 by blast
  have "\<exists>res. score_loop cs b = Inr res" for b
    by (rule Cons.IH) (use Cons.prems in simp)
  then show ?case by (simp add: e bind_err_def Let_def del: split_paired_Ex)
qed

lemma score_loop_rank_mono:
  assumes "score_loop combos best = Inr res"
  shows "fst (snd best) \<le> fst (snd res)"
  using assms
proof (induction combos arbitrary: best)
  case Nil
  then show ?case by simp
next
  case (Cons c cs)
  from Cons.prems obtain t r bc where e: "evaluate_hand_v01 c = Inr (t, r, bc)"
    by (cases "evaluate_hand_v01 c") (auto simp: bind_err_def)
  let ?b = "if fst (snd best) < r \<or> (fst (snd best) = r \<and> sorted_desc (map fst bc) > snd (snd (snd best)))
            then (Some t, r, bc, sorted_desc (map fst bc)) else best"
  from Cons.prems e have "score_loop cs ?b = Inr res" by (simp add: bind_err_def Let_def)
  then have "fst (snd ?b) \<le> fst (snd res)" by (rule Cons.IH)
  moreover have "fst (snd best) \<le> fst (snd ?b)" by auto
  ultimately show ?case by linarith
qed

lemma score_loop_origin:
  assumes "score_loop combos best = Inr res"
  shows "res = best \<or>
    (\<exists>c t r bc. c \<in> set combos \<and> evaluate_hand_v01 c = Inr (t, r, bc)
        \<and> res = (Some t, r, bc, sorted_desc (map fst bc)))"
  using assms
proof (induction combos arbitrary: best)
  case Nil
  then show ?case by simp
next
  case (Cons c cs)
  from Cons.prems obtain t r bc where e: "evaluate_hand_v01 c = Inr (t, r, bc)"
    by (cases "evaluate_hand_v01 c") (auto simp: bind_err_def)
  let ?b = "if fst (snd best) < r \<or> (fst (snd best) = r \<and> sorted_desc (map fst bc) > snd (snd (snd best)))
            then (Some t, r, bc, sorted_desc (map fst bc)) else best"
  from Cons.prems e have "score_loop cs ?b = Inr res" by (simp add: bind_err_def Let_def)
  then have "res = ?b \<or>
    (\<exists>c t r bc. c \<in> set cs \<and> evaluate_hand_v01 c = Inr (t, r, bc)
        \<and> res = (Some t, r, bc, sorted_desc (map fst bc)))" by (rule Cons.IH)
  then show ?case
  proof
    assume "res = ?b"
    with e show ?thesis by (cases "?b = best") auto
  next
    assume "\<exists>c t r bc. c \<in> set cs \<and> evaluate_hand_v01 c = Inr (t, r, bc)
        \<and> res = (Some t, r, bc, sorted_desc (map fst bc))"
    then show ?thesis by auto
  qed
qed

lemma score_loop_no_sentinel:
  assumes "score_loop combos (None, 0, [], []) = Inr res" "combos \<noteq> []"
  shows "\<exists>c t r bc. c \<in> set combos \<and> evaluate_hand_v01 c = Inr (t, r, bc)
        \<and> res = (Some t, r, bc, sorted_desc (map fst bc))"
proof -
  from assms(2) obtain c cs where cc: "combos = c # cs" by (cases combos) auto
  from assms(1) cc obtain t r bc where e: "evaluate_hand_v01 c = Inr (t, r, bc)"
    by (cases "evaluate_hand_v01 c") (auto simp: bind_err_def)
  then have "(t, r) \<in> set hand_labels" by (rule evaluate_hand_v01_label)
  then have r: "1 \<le> r" by (auto simp: hand_labels_def)
  with assms(1) cc e have "score_loop cs (Some t, r, bc, sorted_desc (map fst bc)) = Inr res"
    by (simp add: bind_err_def Let_def)
  then have "r \<le> fst (snd res)" using score_loop_rank_mono by fastforce
  with r have "res \<noteq> (None, 0, [], [])" by auto
  with score_loop_origin [OF assms(1)] show ?thesis by blast
qed

section \<open>The ranking loop\<close>

lemma get_hand_name_total:
  assumes "length hand = 5"
  shows "\<exists>name. get_hand_name hand = Inr name"
proof -
  from assms obtain k where k: "evaluate_hand_v2 hand = Inr k" "fst k \<in> fst ` set hand_names"
    using eval5_v2 by blast
  then obtain name where "map_of hand_names (fst k) = Some name"
    by (metis domD dom_map_of_conv_image_fst)
  with k show ?thesis by (simp add: get_hand_name_def bind_err_def)
qed

lemma hand_evaluations_total:
  assumes "\<forall>h \<in> set hands. length h = 5"
  shows "\<exists>evals. hand_evaluations hands = Inr evals"
  using assms
proof (induction hands)
  case Nil
  show ?case by simp
next
  case (Cons h hs)
  then obtain k where "evaluate_hand_v2 h = Inr k" using eval5_v2 by (metis list.set_intros(1))
  moreover from Cons obtain evals where "hand_evaluations hs = Inr evals" by auto
  ultimately show ?case by (simp add: bind_err_def)
qed

lemma hand_evaluations_Inr:
  assumes "hand_evaluations hands = Inr evals"
  shows "map fst evals = hands \<and> (\<forall>p \<in> set evals. evaluate_hand_v2 (fst p) = Inr (snd p))"
  using assms
proof (induction hands arbitrary: evals)
  case Nil
  then show ?case by simp
next
  case (Cons h hs)
  from Cons.prems obtain k where k: "evaluate_hand_v2 h = Inr k"
    by (cases "evaluate_hand_v2 h") (auto simp: bind_err_def)
  from Cons.prems k obtain rest where r: "hand_evaluations hs = Inr rest"
    by (cases "hand_evaluations hs") (auto simp: bind_err_def)
  from Cons.prems k r have e: "evals = (h, k) # rest" by (simp add: bind_err_def)
  from Cons.IH [OF r] k show ?case unfolding e by simp
qed

lemma rank_loop_spec:
  assumes "\<forall>p \<in> set xs. length (fst p) = 5"
  shows "\<exists>rows. rank_loop i xs current_rank prev = Inr rows
      \<and> map Hand rows = map fst xs
      \<and> (xs \<noteq> [] \<longrightarrow> Rank (rows ! 0) = (if Some (snd (xs ! 0)) \<noteq> prev then i + 1 else current_rank))
      \<and> (\<forall>j. 0 < j \<and> j < length xs \<longrightarrow>
            Rank (rows ! j) = (if snd (xs ! j) \<noteq> snd (xs ! (j - 1)) then i + j + 1
                               else Rank (rows ! (j - 1))))"
  using assms
proof (induction xs arbitrary: i current_rank prev)
  case Nil
  show ?case by simp
next
  case (Cons x xs)
  obtain hand evaluation where x: "x = (hand, evaluation)" by (cases x)
  define cr where "cr = (if Some evaluation \<noteq> prev then i + 1 else current_rank)"
  from Cons.prems x have "length hand = 5" by simp
  then obtain name where n: "get_hand_name hand = Inr name" using get_hand_name_total by blast
  from Cons.prems have "\<forall>p \<in> set xs. length (fst p) = 5" by simp
  from Cons.IH [OF this, of "i + 1" cr "Some evaluation"]
  obtain rows where r: "rank_loop (i + 1) xs cr (Some evaluation) = Inr rows"
    and h: "map Hand rows = map fst xs"
    and r0: "xs \<noteq> [] \<longrightarrow> Rank (rows ! 0) = (if Some (snd (xs ! 0)) \<noteq> Some evaluation then i + 1 + 1 else cr)"
    and rj: "\<forall>j. 0 < j \<and> j < length xs \<longrightarrow>
            Rank (rows ! j) = (if snd (xs ! j) \<noteq> snd (xs ! (j - 1)) then i + 1 + j + 1
                               else Rank (rows ! (j - 1)))"
    by blast
  let ?rows = "\<lparr>Hand = hand, Type = name, Rank = cr\<rparr> # rows"
  have e: "rank_loop i (x # xs) current_rank prev = Inr ?rows"
    using n r by (simp add: x bind_err_def Let_def cr_def)
  have a: "map Hand ?rows = map fst (x # xs)" using h x by simp
  have b: "Rank (?rows ! 0) = (if Some (snd ((x # xs) ! 0)) \<noteq> prev then i + 1 else current_rank)"
    by (simp add: x cr_def)
  have c: "Rank (?rows ! j) = (if snd ((x # xs) ! j) \<noteq> snd ((x # xs) ! (j - 1)) then i + j + 1
                               else Rank (?rows ! (j - 1)))"
    if j: "0 < j" "j < length (x # xs)" for j
  proof (cases "j = 1")
    case True
    with j have "xs \<noteq> []" by auto
    with r0 have "Rank (rows ! 0) = (if snd (xs ! 0) \<noteq> evaluation then i + 2 else cr)" by simp
    with True show ?thesis by (simp add: x)
  next
    case False
    with j obtain j' where j': "j = Suc j'" "0 < j'" "j' < length xs" by (cases j) auto
    with rj have "Rank (rows ! j') = (if snd (xs ! j') \<noteq> snd (xs ! (j' - 1)) then i + 1 + j' + 1
                               else Rank (rows ! (j' - 1)))" by blast
    with j' show ?thesis by (cases j') auto
  qed
  from e a b c show ?case by blast
qed

section \<open>The order of the cards does not matter\<close>

lemma combinations_mset_sub: "c \<in> set (combinations xs k) \<Longrightarrow> mset c \<subseteq># mset xs"
proof (induction xs k arbitrary: c rule: combinations.induct)
  case (1 xs)
  then show ?case by simp
next
  case (2 k)
  then show ?case by simp
next
  case (3 x xs k)
  from "3.prems" consider c' where "c = x # c'" "c' \<in> set (combinations xs k)"
    | "c \<in> set (combinations xs (Suc k))" by auto
  then show ?case
  proof cases
    case 1
    with "3.IH"(1) have "mset c' \<subseteq># mset xs" by blast
    with 1 show ?thesis by simp
  next
    case 2
    with "3.IH"(2) have "mset c \<subseteq># mset xs" by blast
    then show ?thesis by (simp add: subseteq_mset_def le_SucI)
  qed
qed

lemma combinations_mset_complete:
  "S \<subseteq># mset xs \<Longrightarrow> size S = k \<Longrightarrow> \<exists>c \<in> set (combinations xs k). mset c = S"
proof (induction xs arbitrary: S k)
  case Nil
  then show ?case by simp
next
  case (Cons x xs)
  show ?case
  proof (cases k)
    case 0
    with Cons.prems show ?thesis by simp
  next
    case (Suc k')
    show ?thesis
    proof (cases "x \<in># S")
      case True
      then obtain S' where S: "S = add_mset x S'" by (meson mset_add)
      with Cons.prems Suc have "S' \<subseteq># mset xs" "size S' = k'" by simp_all
      then obtain c where "c \<in> set (combinations xs k')" "mset c = S'" using Cons.IH by blast
      then have "x # c \<in> set (combinations (x # xs) k)" "mset (x # c) = S" using S Suc by simp_all
      then show ?thesis by blast
    next
      case False
      with Cons.prems(1) have "S \<subseteq># mset xs"
        by (metis diff_single_trivial mset.simps(2) subset_eq_diff_conv add_mset_add_single)
      then obtain c where "c \<in> set (combinations xs k)" "mset c = S" using Cons.IH Cons.prems(2) by blast
      then show ?thesis using Suc by auto
    qed
  qed
qed

lemma score_loop_max:
  assumes "score_loop combos best = Inr res"
  shows "(fst (snd best), snd (snd (snd best))) \<le> (fst (snd res), snd (snd (snd res)))
     \<and> (\<forall>c \<in> set combos. \<forall>t r bc. evaluate_hand_v01 c = Inr (t, r, bc) \<longrightarrow>
           (r, sorted_desc (map fst bc)) \<le> (fst (snd res), snd (snd (snd res))))"
  using assms
proof (induction combos arbitrary: best)
  case Nil
  then show ?case by simp
next
  case (Cons c cs)
  from Cons.prems obtain t r bc where e: "evaluate_hand_v01 c = Inr (t, r, bc)"
    by (cases "evaluate_hand_v01 c") (auto simp: bind_err_def)
  define kb where "kb = (fst (snd best), snd (snd (snd best)))"
  define kc where "kc = (r, sorted_desc (map fst bc))"
  define kr where "kr = (fst (snd res), snd (snd (snd res)))"
  let ?b = "if fst (snd best) < r \<or> (fst (snd best) = r \<and> sorted_desc (map fst bc) > snd (snd (snd best)))
            then (Some t, r, bc, sorted_desc (map fst bc)) else best"
  have cond: "(fst (snd best) < r \<or> (fst (snd best) = r \<and> sorted_desc (map fst bc) > snd (snd (snd best))))
      \<longleftrightarrow> kb < kc"
    unfolding kb_def kc_def by auto
  have kn: "(fst (snd ?b), snd (snd (snd ?b))) = (if kb < kc then kc else kb)"
    unfolding cond by (simp add: kb_def kc_def)
  from Cons.prems e have "score_loop cs ?b = Inr res" by (simp add: bind_err_def Let_def)
  from Cons.IH [OF this] have ih1: "(if kb < kc then kc else kb) \<le> kr"
    and ih2: "\<forall>c \<in> set cs. \<forall>t r bc. evaluate_hand_v01 c = Inr (t, r, bc) \<longrightarrow>
           (r, sorted_desc (map fst bc)) \<le> kr"
    unfolding kn kr_def by blast+
  from ih1 have "kb \<le> kr" "kc \<le> kr" by (auto split: if_splits)
  with ih2 e show ?case unfolding kb_def kc_def kr_def by auto
qed

lemma evaluate_hand_v01_tree:
  assumes "R = sorted_desc (map fst cards)" "RC = Counter R"
    and "F = (card (set (map snd cards)) = 1)"
    and "S = (card (set R) = 5 \<and> (Max (set R) - Min (set R) = 4 \<or> R = [14, 5, 4, 3, 2]))"
  shows "evaluate_hand_v01 cards =
     (
      if F \<and> R = [14, 13, 12, 11, 10] then Inr (''RF'', 10, cards)
      else if F \<and> S then Inr (''SF'', 9, cards)
      else if 4 \<in> set (map snd RC) then
        bind_err (py_next [r. (r, c) \<leftarrow> RC, c = 4]) (\<lambda>four_rank.
        bind_err (py_max [r. r \<leftarrow> R, r \<noteq> four_rank]) (\<lambda>kicker.
          Inr (''4k'', 8, [c. c \<leftarrow> cards, fst c = four_rank \<or> fst c = kicker])))
      else if 3 \<in> set (map snd RC) \<and> 2 \<in> set (map snd RC) then
        bind_err (py_next [r. (r, c) \<leftarrow> RC, c = 3]) (\<lambda>three_rank.
        bind_err (py_next [r. (r, c) \<leftarrow> RC, c = 2]) (\<lambda>pair_rank.
          Inr (''FH'', 7, [c. c \<leftarrow> cards, fst c \<in> set [three_rank, pair_rank]])))
      else if F then Inr (''FL'', 6, cards)
      else if S then Inr (''ST'', 5, cards)
      else if 3 \<in> set (map snd RC) then
        bind_err (py_next [r. (r, c) \<leftarrow> RC, c = 3]) (\<lambda>three_rank.
          (let kickers = take 2 (sorted_desc [r. r \<leftarrow> R, r \<noteq> three_rank])
           in Inr (''3K'', 4, [c. c \<leftarrow> cards, fst c = three_rank \<or> fst c \<in> set kickers])))
      else if count_list (map snd RC) 2 \<ge> 2 then
        (let pair_ranks = take 2 (sorted_desc [r. (r, c) \<leftarrow> RC, c = 2])
         in bind_err (py_max [r. r \<leftarrow> R, r \<notin> set pair_ranks]) (\<lambda>kicker.
              Inr (''2P'', 3, [c. c \<leftarrow> cards, fst c \<in> set pair_ranks \<or> fst c = kicker])))
      else if 2 \<in> set (map snd RC) then
        bind_err (py_next [r. (r, c) \<leftarrow> RC, c = 2]) (\<lambda>pair_rank.
          (let kickers = take 3 (sorted_desc [r. r \<leftarrow> R, r \<noteq> pair_rank])
           in Inr (''PR'', 2, [c. c \<leftarrow> cards, fst c = pair_rank \<or> fst c \<in> set kickers])))
      else Inr (''HC'', 1, cards))"
  unfolding evaluate_hand_v01_def Let_def assms ..

lemma evaluate_hand_v01_mset:
  assumes "mset c1 = mset c2" "evaluate_hand_v01 c1 = Inr (t, r, bc1)"
  shows "\<exists>bc2. evaluate_hand_v01 c2 = Inr (t, r, bc2) \<and> mset bc2 = mset bc1"
proof -
  define R where "R = sorted_desc (map fst c2)"
  define RC where "RC = Counter R"
  define F where "F = (card (set (map snd c2)) = 1)"
  define S where "S = (card (set R) = 5 \<and> (Max (set R) - Min (set R) = 4 \<or> R = [14, 5, 4, 3, 2]))"
  have m: "mset (map fst c1) = mset (map fst c2)" using assms(1) by (metis mset_map)
  then have s: "R = sorted_desc (map fst c1)"
    unfolding sorted_desc_def R_def by (metis properties_for_sort sorted_sort mset_sort)
  have "mset (map snd c1) = mset (map snd c2)" using assms(1) by (metis mset_map)
  then have "set (map snd c1) = set (map snd c2)" by (rule mset_eq_setD)
  then have u: "F = (card (set (map snd c1)) = 1)" unfolding F_def by simp
  have f: "\<forall>P. mset (filter P c2) = mset (filter P c1)"
    using assms(1) by (metis mset_filter)
  have g: "mset c2 = mset c1" using assms(1) by simp
  note t1 = evaluate_hand_v01_tree [OF s RC_def u S_def]
  note t2 = evaluate_hand_v01_tree [OF R_def RC_def F_def S_def]
  show ?thesis
    using assms(2) g f
    unfolding t1 t2 Let_def bind_err_def comprehension_filter
    by (auto split: if_splits sum.splits)
qed

lemma texas_holdem_score_best:
  assumes "length seven_cards = 7"
  shows "\<exists>t r bc c. texas_holdem_score seven_cards = Inr (Some t, r, bc)
      \<and> c \<in> set (combinations seven_cards 5) \<and> evaluate_hand_v01 c = Inr (t, r, bc)
      \<and> (\<forall>c' \<in> set (combinations seven_cards 5). \<forall>t' r' bc'.
            evaluate_hand_v01 c' = Inr (t', r', bc') \<longrightarrow>
            (r', sorted_desc (map fst bc')) \<le> (r, sorted_desc (map fst bc)))"
proof -
  let ?combos = "combinations seven_cards 5"
  have "\<forall>c \<in> set ?combos. length c = 5" by (simp add: combinations_length)
  then obtain best where b: "score_loop ?combos (None, 0, [], []) = Inr best"
    using score_loop_total by blast
  have "length ?combos = 21" using assms by (simp add: combinations_count eval_nat_numeral)
  then have "?combos \<noteq> []" by auto
  with b obtain c t r bc where c: "c \<in> set ?combos" "evaluate_hand_v01 c = Inr (t, r, bc)"
      "best = (Some t, r, bc, sorted_desc (map fst bc))"
    using score_loop_no_sentinel by blast
  have "texas_holdem_score seven_cards = Inr (Some t, r, bc)"
    using assms b c(3) by (simp add: texas_holdem_score_def bind_err_def)
  moreover from score_loop_max [OF b] have "\<forall>c' \<in> set ?combos. \<forall>t' r' bc'.
            evaluate_hand_v01 c' = Inr (t', r', bc') \<longrightarrow>
            (r', sorted_desc (map fst bc')) \<le> (r, sorted_desc (map fst bc))"
    unfolding c(3) by simp
  ultimately show ?thesis using c(1,2) by blast
qed

lemma sorted_desc_mset: "mset xs = mset ys \<Longrightarrow> sorted_desc xs = sorted_desc ys"
  unfolding sorted_desc_def by (metis properties_for_sort sorted_sort mset_sort)

lemma combination_transfer:
  assumes "mset cs1 = mset cs2" "c \<in> set (combinations cs1 k)"
    and "evaluate_hand_v01 c = Inr (t, r, bc)"
  shows "\<exists>c' bc'. c' \<in> set (combinations cs2 k) \<and> evaluate_hand_v01 c' = Inr (t, r, bc')
      \<and> sorted_desc (map fst bc') = sorted_desc (map fst bc)"
proof -
  from assms(2) have "mset c \<subseteq># mset cs2" "size (mset c) = k"
    using combinations_mset_sub combinations_length assms(1) by (metis, simp)
  then obtain c' where c': "c' \<in> set (combinations cs2 k)" "mset c' = mset c"
    using combinations_mset_complete by blast
  from c'(2) [symmetric] assms(3) obtain bc' where b: "evaluate_hand_v01 c' = Inr (t, r, bc')"
      "mset bc' = mset bc"
    using evaluate_hand_v01_mset by blast
  from b(2) have "mset (map fst bc') = mset (map fst bc)" by (metis mset_map)
  then have "sorted_desc (map fst bc') = sorted_desc (map fst bc)" by (rule sorted_desc_mset)
  with c'(1) b(1) show ?thesis by blast
qed

lemma texas_holdem_score_perm:
  assumes "mset cs1 = mset cs2" "length cs1 = 7"
  shows "\<exists>t r bc1 bc2. texas_holdem_score cs1 = Inr (Some t, r, bc1)
      \<and> texas_holdem_score cs2 = Inr (Some t, r, bc2)
      \<and> mset (map fst bc1) = mset (map fst bc2)"
proof -
  from assms have l2: "length cs2 = 7" by (metis mset_eq_length)
  from texas_holdem_score_best [OF assms(2)]
  obtain t1 r1 bc1 c1 where 1: "texas_holdem_score cs1 = Inr (Some t1, r1, bc1)"
      "c1 \<in> set (combinations cs1 5)" "evaluate_hand_v01 c1 = Inr (t1, r1, bc1)"
    and m1: "\<forall>c' \<in> set (combinations cs1 5). \<forall>t' r' bc'.
            evaluate_hand_v01 c' = Inr (t', r', bc') \<longrightarrow>
            (r', sorted_desc (map fst bc')) \<le> (r1, sorted_desc (map fst bc1))"
    by blast
  from texas_holdem_score_best [OF l2]
  obtain t2 r2 bc2 c2 where 2: "texas_holdem_score cs2 = Inr (Some t2, r2, bc2)"
      "c2 \<in> set (combinations cs2 5)" "evaluate_hand_v01 c2 = Inr (t2, r2, bc2)"
    and m2: "\<forall>c' \<in> set (combinations cs2 5). \<forall>t' r' bc'.
            evaluate_hand_v01 c' = Inr (t', r', bc') \<longrightarrow>
            (r', sorted_desc (map fst bc')) \<le> (r2, sorted_desc (map fst bc2))"
    by blast
  from combination_transfer [OF assms(1) 1(2) 1(3)] m2
  have a: "(r1, sorted_desc (map fst bc1)) \<le> (r2, sorted_desc (map fst bc2))" by metis
  from combination_transfer [OF assms(1) [symmetric] 2(2) 2(3)] m1
  have b: "(r2, sorted_desc (map fst bc2)) \<le> (r1, sorted_desc (map fst bc1))" by metis
  from a b have "(r1, sorted_desc (map fst bc1)) = (r2, sorted_desc (map fst bc2))"
    by (rule antisym)
  then have r: "r1 = r2" and s: "sorted_desc (map fst bc1) = sorted_desc (map fst bc2)" by simp_all
  from s have "mset (sorted_desc (map fst bc1)) = mset (sorted_desc (map fst bc2))" by simp
  then have m: "mset (map fst bc1) = mset (map fst bc2)" by (simp add: sorted_desc_def)
  from 1(3) have "(t1, r1) \<in> set hand_labels" by (rule evaluate_hand_v01_label)
  moreover from 2(3) have "(t2, r2) \<in> set hand_labels" by (rule evaluate_hand_v01_label)
  ultimately have "t1 = t2" using r by (auto simp: hand_labels_def)
  with 1(1) 2(1) r m show ?thesis by simp
qed

lemma quad_aces_king_v2:
  assumes "sort (map fst hand) = [13, 14, 14, 14, 14]"
  shows "evaluate_hand_v2 hand = Inr (2, [- 14, - 13])"
  unfolding evaluate_hand_v2_def is_straight_def straight_high_def Let_def
  unfolding sorted_ranks_facts [OF assms(1)] assms(1)
  by (simp add: Counter_def get_rank_counts_def py_index_def bind_err_def sorted_desc_def)

section \<open>The errors of the evaluators\<close>









section \<open>The cards returned for a hand of five\<close>






section \<open>A linear order\<close>

lemma linorder_facts:
  fixes a b c :: "'a :: linorder"
  shows "(b < a \<or> a = b \<or> a < b)
       \<and> \<not> (b < a \<and> a = b)
       \<and> \<not> (b < a \<and> a < b)
       \<and> \<not> (a = b \<and> a < b)
       \<and> (b < a \<and> c < b \<longrightarrow> c < a)
       \<and> (a = b \<and> b = c \<longrightarrow> a = c)"
  by auto

section \<open>Properties of the evaluators\<close>

text \<open>
  C1 (fails on the code). \<open>texas_holdem_score\<close> is to return the best of the 21
  five-card subsets, the wheel A-2-3-4-5 counting as a 5-high straight. On
  Ac 2h 3s 4d 5c 6h 9s it returns the wheel, although the subset
  2-3-4-5-6 is among the combinations and pokercombos.py evaluates it strictly better
  (a smaller tuple) than the wheel: the loop compares the sorted ranks of the cards,
  where the wheel's ace counts 14.
\<close>

theorem C1_wheel_beats_six_high:
  "texas_holdem_score
     [(14, CHR ''c''), (2, CHR ''h''), (3, CHR ''s''), (4, CHR ''d''),
      (5, CHR ''c''), (6, CHR ''h''), (9, CHR ''s'')]
   = Inr (Some ''ST'', 5,
      [(14, CHR ''c''), (2, CHR ''h''), (3, CHR ''s''), (4, CHR ''d''), (5, CHR ''c'')])
   \<and> [(2, CHR ''h''), (3, CHR ''s''), (4, CHR ''d''), (5, CHR ''c''), (6, CHR ''h'')]
       \<in> set (combinations
            [(14, CHR ''c''), (2, CHR ''h''), (3, CHR ''s''), (4, CHR ''d''),
             (5, CHR ''c''), (6, CHR ''h''), (9, CHR ''s'') :: playing_card] 5)
   \<and> evaluate_hand_v2
        [(14, CHR ''c''), (2, CHR ''h''), (3, CHR ''s''), (4, CHR ''d''), (5, CHR ''c'')]
       = Inr (5, [- 5])
   \<and> evaluate_hand_v2
        [(2, CHR ''h''), (3, CHR ''s''), (4, CHR ''d''), (5, CHR ''c''), (6, CHR ''h'')]
       = Inr (5, [- 6])
   \<and> ((5, [- 6]) :: evaluation) < (5, [- 5])
   \<and> hand_less
        [(14, CHR ''c''), (2, CHR ''h''), (3, CHR ''s''), (4, CHR ''d''), (5, CHR ''c'')]
        [(2, CHR ''h''), (3, CHR ''s''), (4, CHR ''d''), (5, CHR ''c''), (6, CHR ''h'')]
   \<and> evaluate_hand_v01
        [(2, CHR ''h''), (3, CHR ''s''), (4, CHR ''d''), (5, CHR ''c''), (6, CHR ''h'')]
       = Inr (''ST'', 5,
           [(2, CHR ''h''), (3, CHR ''s''), (4, CHR ''d''), (5, CHR ''c''), (6, CHR ''h'')])"
  unfolding texas_holdem_score_def score_loop_fold
  by code_simp

text \<open>
  C2. A hand whose ranks are 14, 2, 3, 4, 5 in any order and that holds two cards of
  different suits is a straight whose tie-break value is 5, not 14: pokercombos.py
  returns \<open>(5, (-5,))\<close>. A 6-high straight of mixed suits gets \<open>(5, (-6,))\<close>, the
  smaller and hence better tuple, so the wheel is strictly below it. poker.py, which
  keeps no tie-break value, labels the wheel \<open>ST\<close> with rank 5.
\<close>

theorem C2_wheel_is_five_high:
  assumes "mset (map fst wheel) = mset [14, 2, 3, 4, 5]"
    and "c1 \<in> set wheel" "c2 \<in> set wheel" "snd c1 \<noteq> snd c2"
    and "mset (map fst six) = mset [6, 5, 4, 3, 2]"
    and "d1 \<in> set six" "d2 \<in> set six" "snd d1 \<noteq> snd d2"
  shows "evaluate_hand_v2 wheel = Inr (5, [- 5])
       \<and> evaluate_hand_v2 six = Inr (5, [- 6])
       \<and> hand_less wheel six
       \<and> evaluate_hand_v01 wheel = Inr (''ST'', 5, wheel)"
proof -
  have "mset [14, 2, 3, 4, 5 :: int] = mset [2, 3, 4, 5, 14]"
    by (simp add: add_mset_commute)
  with assms(1) have "mset (map fst wheel) = mset [2, 3, 4, 5, 14]" by (rule trans)
  moreover have "sorted [2, 3, 4, 5, 14 :: int]" by simp
  ultimately have w: "sort (map fst wheel) = [2, 3, 4, 5, 14]" by (rule mset_ranks_sort)
  have "mset [6, 5, 4, 3, 2 :: int] = mset [2, 3, 4, 5, 6]"
    by (simp add: add_mset_commute)
  with assms(5) have "mset (map fst six) = mset [2, 3, 4, 5, 6]" by (rule trans)
  moreover have "sorted [2, 3, 4, 5, 6 :: int]" by simp
  ultimately have s: "sort (map fst six) = [2, 3, 4, 5, 6]" by (rule mset_ranks_sort)
  have nw: "\<not> is_flush (map snd wheel)" using assms(2-4) by (rule mixed_suits_not_flush)
  have ns: "\<not> is_flush (map snd six)" using assms(6-8) by (rule mixed_suits_not_flush)
  have ew: "evaluate_hand_v2 wheel = Inr (5, [- 5])" using w nw by (rule wheel_v2)
  have es: "evaluate_hand_v2 six = Inr (5, [- 6])" using s ns by (rule six_high_v2)
  have "hand_less wheel six" by (simp add: hand_less_def ew es)
  moreover have "evaluate_hand_v01 wheel = Inr (''ST'', 5, wheel)" using w nw by (rule wheel_v01)
  ultimately show ?thesis using ew es by simp
qed

theorem C2_wheel_is_five_high_witness:
  "mset (map fst [(14 :: int, CHR ''c''), (2, CHR ''h''), (3, CHR ''s''), (4, CHR ''d''), (5, CHR ''c'')])
     = mset [14, 2, 3, 4, 5]
   \<and> mset (map fst [(2 :: int, CHR ''h''), (3, CHR ''s''), (4, CHR ''d''), (5, CHR ''c''), (6, CHR ''h'')])
     = mset [6, 5, 4, 3, 2]
   \<and> evaluate_hand_v2 [(14, CHR ''c''), (2, CHR ''h''), (3, CHR ''s''), (4, CHR ''d''), (5, CHR ''c'')]
     = Inr (5, [- 5])
   \<and> evaluate_hand_v2 [(2, CHR ''h''), (3, CHR ''s''), (4, CHR ''d''), (5, CHR ''c''), (6, CHR ''h'')]
     = Inr (5, [- 6])
   \<and> hand_less [(14, CHR ''c''), (2, CHR ''h''), (3, CHR ''s''), (4, CHR ''d''), (5, CHR ''c'')]
        [(2, CHR ''h''), (3, CHR ''s''), (4, CHR ''d''), (5, CHR ''c''), (6, CHR ''h'')]
   \<and> evaluate_hand_v01 [(14, CHR ''c''), (2, CHR ''h''), (3, CHR ''s''), (4, CHR ''d''), (5, CHR ''c'')]
     = Inr (''ST'', 5, [(14, CHR ''c''), (2, CHR ''h''), (3, CHR ''s''), (4, CHR ''d''), (5, CHR ''c'')])"
  using C2_wheel_is_five_high
    [of "[(14, CHR ''c''), (2, CHR ''h''), (3, CHR ''s''), (4, CHR ''d''), (5, CHR ''c'')]"
        "(14, CHR ''c'')" "(2, CHR ''h'')"
        "[(2, CHR ''h''), (3, CHR ''s''), (4, CHR ''d''), (5, CHR ''c''), (6, CHR ''h'')]"
        "(2, CHR ''h'')" "(3, CHR ''s'')"]
  by simp




text \<open>
  C4. On hands of five cards the ranking returns one row per hand, sorted best first
  (the evaluation tuples ascend, a lower tuple being a better hand). The first row has
  rank 1; a row whose evaluation equals that of the row before it has that row's rank;
  a row whose evaluation differs from, and so is strictly worse than, that of the row
  before it has as rank its 1-based position \<open>j + 1\<close>.
\<close>

theorem C4_rank_all:
  assumes "\<forall>h \<in> set hands. length h = 5"
  shows "\<exists>rows keys. rank_all hands = Inr rows \<and> length keys = length rows
      \<and> mset (map Hand rows) = mset hands
      \<and> (\<forall>j < length rows. evaluate_hand_v2 (Hand (rows ! j)) = Inr (keys ! j))
      \<and> sorted keys
      \<and> (rows \<noteq> [] \<longrightarrow> Rank (rows ! 0) = 1)
      \<and> (\<forall>j. 0 < j \<and> j < length rows \<longrightarrow>
            (keys ! j = keys ! (j - 1) \<longrightarrow> Rank (rows ! j) = Rank (rows ! (j - 1)))
          \<and> (keys ! j \<noteq> keys ! (j - 1) \<longrightarrow>
                keys ! (j - 1) < keys ! j \<and> Rank (rows ! j) = j + 1))"
proof -
  from assms obtain evals where ev: "hand_evaluations hands = Inr evals"
    using hand_evaluations_total by blast
  then have eh: "map fst evals = hands"
    and ek: "\<forall>p \<in> set evals. evaluate_hand_v2 (fst p) = Inr (snd p)"
    using hand_evaluations_Inr by blast+
  define xs where "xs = sort_key snd evals"
  define keys where "keys = map snd xs"
  have sx: "set xs = set evals" by (simp add: xs_def)
  have "fst ` set evals = set hands" using eh by (metis set_map)
  with assms sx have l5: "\<forall>p \<in> set xs. length (fst p) = 5" by auto
  from rank_loop_spec [OF l5, of 0 1 None]
  obtain rows where r: "rank_loop 0 xs 1 None = Inr rows"
    and rh: "map Hand rows = map fst xs"
    and r0: "xs \<noteq> [] \<longrightarrow> Rank (rows ! 0) = 1"
    and rj: "\<forall>j. 0 < j \<and> j < length xs \<longrightarrow>
            Rank (rows ! j) = (if snd (xs ! j) \<noteq> snd (xs ! (j - 1)) then 0 + j + 1
                               else Rank (rows ! (j - 1)))"
    by auto
  have len: "length rows = length xs" using rh by (metis length_map)
  have a: "rank_all hands = Inr rows" using ev r by (simp add: rank_all_def bind_err_def xs_def)
  have b: "length keys = length rows" by (simp add: keys_def len)
  have "mset (map fst xs) = mset (map fst evals)" by (simp add: xs_def)
  then have c: "mset (map Hand rows) = mset hands" using rh eh by simp
  have d: "evaluate_hand_v2 (Hand (rows ! j)) = Inr (keys ! j)" if "j < length rows" for j
  proof -
    from that len have j: "j < length xs" by simp
    then have "xs ! j \<in> set evals" using sx nth_mem by blast
    with ek have "evaluate_hand_v2 (fst (xs ! j)) = Inr (snd (xs ! j))" by blast
    moreover have "Hand (rows ! j) = fst (xs ! j)" using rh j that by (metis nth_map)
    ultimately show ?thesis using j by (simp add: keys_def)
  qed
  have e: "sorted keys" by (simp add: keys_def xs_def)
  have f: "rows \<noteq> [] \<longrightarrow> Rank (rows ! 0) = 1" using r0 len by auto
  have g: "(keys ! j = keys ! (j - 1) \<longrightarrow> Rank (rows ! j) = Rank (rows ! (j - 1)))
          \<and> (keys ! j \<noteq> keys ! (j - 1) \<longrightarrow>
                keys ! (j - 1) < keys ! j \<and> Rank (rows ! j) = j + 1)"
    if "0 < j \<and> j < length rows" for j
  proof -
    from that len have j: "0 < j" "j < length xs" by simp_all
    then have k: "keys ! j = snd (xs ! j)" "keys ! (j - 1) = snd (xs ! (j - 1))"
      by (simp_all add: keys_def)
    from j have "j - 1 \<le> j" "j < length keys" by (simp_all add: keys_def)
    with e have "keys ! (j - 1) \<le> keys ! j" by (rule sorted_nth_mono)
    moreover from rj j have "Rank (rows ! j) = (if snd (xs ! j) \<noteq> snd (xs ! (j - 1)) then 0 + j + 1
                               else Rank (rows ! (j - 1)))" by blast
    ultimately show ?thesis using k by auto
  qed
  from a b c d e f g show ?thesis by blast
qed

theorem C4_rank_all_witness:
  "map length
    [[(14 :: int, CHR ''c''), (2, CHR ''h''), (3, CHR ''s''), (4, CHR ''d''), (5, CHR ''c'')],
     [(14, CHR ''c''), (13, CHR ''c''), (3, CHR ''c''), (4, CHR ''c''), (5, CHR ''c'')],
     [(14, CHR ''d''), (13, CHR ''d''), (3, CHR ''d''), (4, CHR ''d''), (5, CHR ''d'')],
     [(6, CHR ''c''), (2, CHR ''h''), (3, CHR ''s''), (4, CHR ''d''), (5, CHR ''c'')]]
    = [5, 5, 5, 5]
  \<and> rank_all
   [[(14, CHR ''c''), (2, CHR ''h''), (3, CHR ''s''), (4, CHR ''d''), (5, CHR ''c'')],
    [(14, CHR ''c''), (13, CHR ''c''), (3, CHR ''c''), (4, CHR ''c''), (5, CHR ''c'')],
    [(14, CHR ''d''), (13, CHR ''d''), (3, CHR ''d''), (4, CHR ''d''), (5, CHR ''d'')],
    [(6, CHR ''c''), (2, CHR ''h''), (3, CHR ''s''), (4, CHR ''d''), (5, CHR ''c'')]]
  = Inr [\<lparr>Hand = [(14, CHR ''c''), (13, CHR ''c''), (3, CHR ''c''), (4, CHR ''c''), (5, CHR ''c'')],
          Type = ''FL'', Rank = 1\<rparr>,
         \<lparr>Hand = [(14, CHR ''d''), (13, CHR ''d''), (3, CHR ''d''), (4, CHR ''d''), (5, CHR ''d'')],
          Type = ''FL'', Rank = 1\<rparr>,
         \<lparr>Hand = [(6, CHR ''c''), (2, CHR ''h''), (3, CHR ''s''), (4, CHR ''d''), (5, CHR ''c'')],
          Type = ''ST'', Rank = 3\<rparr>,
         \<lparr>Hand = [(14, CHR ''c''), (2, CHR ''h''), (3, CHR ''s''), (4, CHR ''d''), (5, CHR ''c'')],
          Type = ''ST'', Rank = 4\<rparr>]"
proof -
  let ?hands = "[[(14 :: int, CHR ''c''), (2, CHR ''h''), (3, CHR ''s''), (4, CHR ''d''), (5, CHR ''c'')],
     [(14, CHR ''c''), (13, CHR ''c''), (3, CHR ''c''), (4, CHR ''c''), (5, CHR ''c'')],
     [(14, CHR ''d''), (13, CHR ''d''), (3, CHR ''d''), (4, CHR ''d''), (5, CHR ''d'')],
     [(6, CHR ''c''), (2, CHR ''h''), (3, CHR ''s''), (4, CHR ''d''), (5, CHR ''c'')]]"
  have h: "\<forall>h \<in> set ?hands. length h = 5" by simp
  from C4_rank_all [OF h] obtain rows where r: "rank_all ?hands = Inr rows"
    and rk: "rows \<noteq> [] \<longrightarrow> Rank (rows ! 0) = 1" by blast
  have v: "rank_all ?hands
     = Inr [\<lparr>Hand = [(14, CHR ''c''), (13, CHR ''c''), (3, CHR ''c''), (4, CHR ''c''), (5, CHR ''c'')],
          Type = ''FL'', Rank = 1\<rparr>,
         \<lparr>Hand = [(14, CHR ''d''), (13, CHR ''d''), (3, CHR ''d''), (4, CHR ''d''), (5, CHR ''d'')],
          Type = ''FL'', Rank = 1\<rparr>,
         \<lparr>Hand = [(6, CHR ''c''), (2, CHR ''h''), (3, CHR ''s''), (4, CHR ''d''), (5, CHR ''c'')],
          Type = ''ST'', Rank = 3\<rparr>,
         \<lparr>Hand = [(14, CHR ''c''), (2, CHR ''h''), (3, CHR ''s''), (4, CHR ''d''), (5, CHR ''c'')],
          Type = ''ST'', Rank = 4\<rparr>]"
    by code_simp
  from r v rk show ?thesis by simp
qed

text \<open>
  C5. On hands of five cards the order given by the evaluations is total: of two hands
  exactly one is below the other or they tie; being below is asymmetric and transitive,
  tying is transitive and means that the evaluations are equal. Hands with the same
  ranks that are both flushes or both not tie, whatever their suits and the order of
  their cards.
\<close>

theorem C5_total_order:
  assumes "length h1 = 5" "length h2 = 5" "length h3 = 5"
  shows "(hand_less h1 h2 \<or> hand_tied h1 h2 \<or> hand_less h2 h1)
       \<and> \<not> (hand_less h1 h2 \<and> hand_tied h1 h2)
       \<and> \<not> (hand_less h1 h2 \<and> hand_less h2 h1)
       \<and> \<not> (hand_tied h1 h2 \<and> hand_less h2 h1)
       \<and> (hand_less h1 h2 \<and> hand_less h2 h3 \<longrightarrow> hand_less h1 h3)
       \<and> (hand_tied h1 h2 \<and> hand_tied h2 h3 \<longrightarrow> hand_tied h1 h3)
       \<and> (hand_tied h1 h2 \<longleftrightarrow> evaluate_hand_v2 h1 = evaluate_hand_v2 h2)
       \<and> (mset (map fst h1) = mset (map fst h2)
            \<and> is_flush (map snd h1) = is_flush (map snd h2) \<longrightarrow> hand_tied h1 h2)"
proof -
  from assms(1) obtain k1 where k1: "evaluate_hand_v2 h1 = Inr k1" using eval5_v2 by blast
  from assms(2) obtain k2 where k2: "evaluate_hand_v2 h2 = Inr k2" using eval5_v2 by blast
  from assms(3) obtain k3 where k3: "evaluate_hand_v2 h3 = Inr k3" using eval5_v2 by blast
  have l: "hand_less h1 h2 \<longleftrightarrow> k2 < k1" "hand_less h2 h1 \<longleftrightarrow> k1 < k2"
      "hand_less h2 h3 \<longleftrightarrow> k3 < k2" "hand_less h1 h3 \<longleftrightarrow> k3 < k1"
    by (simp_all add: hand_less_def k1 k2 k3)
  have t: "hand_tied h1 h2 \<longleftrightarrow> k1 = k2" "hand_tied h2 h3 \<longleftrightarrow> k2 = k3"
      "hand_tied h1 h3 \<longleftrightarrow> k1 = k3"
    by (simp_all add: hand_tied_def k1 k2 k3)
  have A: "(hand_less h1 h2 \<or> hand_tied h1 h2 \<or> hand_less h2 h1)
       \<and> \<not> (hand_less h1 h2 \<and> hand_tied h1 h2)
       \<and> \<not> (hand_less h1 h2 \<and> hand_less h2 h1)
       \<and> \<not> (hand_tied h1 h2 \<and> hand_less h2 h1)
       \<and> (hand_less h1 h2 \<and> hand_less h2 h3 \<longrightarrow> hand_less h1 h3)
       \<and> (hand_tied h1 h2 \<and> hand_tied h2 h3 \<longrightarrow> hand_tied h1 h3)"
    unfolding l t by (rule linorder_facts)
  have B: "hand_tied h1 h2 \<longleftrightarrow> evaluate_hand_v2 h1 = evaluate_hand_v2 h2"
    unfolding t k1 k2 by simp
  have C: "mset (map fst h1) = mset (map fst h2)
            \<and> is_flush (map snd h1) = is_flush (map snd h2) \<longrightarrow> hand_tied h1 h2"
    unfolding B using evaluate_hand_v2_cong by blast
  from A B C show ?thesis by (intro conjI) (elim conjE; assumption)+
qed

theorem C5_total_order_witness:
  "length [(9 :: int, CHR ''c''), (9, CHR ''h''), (5, CHR ''s''), (4, CHR ''d''), (2, CHR ''c'')] = 5
   \<and> length [(6 :: int, CHR ''c''), (2, CHR ''h''), (3, CHR ''s''), (4, CHR ''d''), (5, CHR ''c'')] = 5
   \<and> length [(14 :: int, CHR ''d''), (13, CHR ''d''), (3, CHR ''d''), (4, CHR ''d''), (5, CHR ''d'')] = 5
   \<and> hand_less [(9, CHR ''c''), (9, CHR ''h''), (5, CHR ''s''), (4, CHR ''d''), (2, CHR ''c'')]
        [(6, CHR ''c''), (2, CHR ''h''), (3, CHR ''s''), (4, CHR ''d''), (5, CHR ''c'')]
   \<and> hand_less [(6, CHR ''c''), (2, CHR ''h''), (3, CHR ''s''), (4, CHR ''d''), (5, CHR ''c'')]
        [(14, CHR ''d''), (13, CHR ''d''), (3, CHR ''d''), (4, CHR ''d''), (5, CHR ''d'')]
   \<and> hand_less [(9, CHR ''c''), (9, CHR ''h''), (5, CHR ''s''), (4, CHR ''d''), (2, CHR ''c'')]
        [(14, CHR ''d''), (13, CHR ''d''), (3, CHR ''d''), (4, CHR ''d''), (5, CHR ''d'')]
   \<and> mset (map fst [(9 :: int, CHR ''c''), (9, CHR ''h''), (5, CHR ''s''), (4, CHR ''d''), (2, CHR ''c'')])
       = mset (map fst [(2 :: int, CHR ''d''), (9, CHR ''s''), (4, CHR ''h''), (9, CHR ''d''), (5, CHR ''h'')])
   \<and> hand_tied [(9, CHR ''c''), (9, CHR ''h''), (5, CHR ''s''), (4, CHR ''d''), (2, CHR ''c'')]
        [(2, CHR ''d''), (9, CHR ''s''), (4, CHR ''h''), (9, CHR ''d''), (5, CHR ''h'')]"
proof -
  let ?A = "[(9 :: int, CHR ''c''), (9, CHR ''h''), (5, CHR ''s''), (4, CHR ''d''), (2, CHR ''c'')]"
  let ?A' = "[(2 :: int, CHR ''d''), (9, CHR ''s''), (4, CHR ''h''), (9, CHR ''d''), (5, CHR ''h'')]"
  let ?B = "[(6 :: int, CHR ''c''), (2, CHR ''h''), (3, CHR ''s''), (4, CHR ''d''), (5, CHR ''c'')]"
  let ?C = "[(14 :: int, CHR ''d''), (13, CHR ''d''), (3, CHR ''d''), (4, CHR ''d''), (5, CHR ''d'')]"
  have ab: "hand_less ?A ?B" by code_simp
  have bc: "hand_less ?B ?C" by code_simp
  have m: "mset (map fst ?A) = mset (map fst ?A')" by (simp add: add_mset_commute)
  have f: "is_flush (map snd ?A) = is_flush (map snd ?A')" by code_simp
  have l: "length ?A = 5" "length ?A' = 5" "length ?B = 5" "length ?C = 5" by simp_all
  from C5_total_order [OF l(1) l(3) l(4)] ab bc have ac: "hand_less ?A ?C" by blast
  from C5_total_order [OF l(1) l(2) l(4)] m f have t: "hand_tied ?A ?A'" by blast
  from l ab bc ac m t show ?thesis by blast
qed

text \<open>
  C6 (fails as stated). Ten to ace in mixed suits is not a high card: both classifiers
  return a straight (poker.py \<open>ST\<close> with rank 5, pokercombos.py category 5 with
  straight-high 14).
\<close>

theorem C6_broadway_mixed_counterexample:
  "evaluate_hand_v01
     [(10, CHR ''c''), (11, CHR ''h''), (12, CHR ''s''), (13, CHR ''d''), (14, CHR ''c'')]
   = Inr (''ST'', 5,
       [(10, CHR ''c''), (11, CHR ''h''), (12, CHR ''s''), (13, CHR ''d''), (14, CHR ''c'')])
   \<and> evaluate_hand_v01
     [(10, CHR ''c''), (11, CHR ''h''), (12, CHR ''s''), (13, CHR ''d''), (14, CHR ''c'')]
   \<noteq> Inr (''HC'', 1,
       [(10, CHR ''c''), (11, CHR ''h''), (12, CHR ''s''), (13, CHR ''d''), (14, CHR ''c'')])
   \<and> evaluate_hand_v2
     [(10, CHR ''c''), (11, CHR ''h''), (12, CHR ''s''), (13, CHR ''d''), (14, CHR ''c'')]
   = Inr (5, [- 14])"
  by code_simp

text \<open>
  C6, amended. A hand whose ranks are 10, 11, 12, 13, 14 in any order is a royal flush
  when all its cards have the suit of the first one, and an ace-high straight as soon as
  one card has another suit.
\<close>

theorem C6_royal_flush_or_straight:
  assumes "mset (map fst hand) = mset [10, 11, 12, 13, 14]"
  shows "((\<forall>c \<in> set hand. snd c = snd (hd hand)) \<longrightarrow>
            evaluate_hand_v01 hand = Inr (''RF'', 10, hand) \<and> evaluate_hand_v2 hand = Inr (0, []))
       \<and> ((\<exists>c \<in> set hand. snd c \<noteq> snd (hd hand)) \<longrightarrow>
            evaluate_hand_v01 hand = Inr (''ST'', 5, hand) \<and> evaluate_hand_v2 hand = Inr (5, [- 14]))"
proof -
  have "sorted [10, 11, 12, 13, 14 :: int]" by simp
  with assms have s: "sort (map fst hand) = [10, 11, 12, 13, 14]" by (rule mset_ranks_sort)
  from assms have ne: "hand \<noteq> []" by auto
  then have h: "hd hand \<in> set hand" by simp
  have "evaluate_hand_v01 hand = Inr (''RF'', 10, hand) \<and> evaluate_hand_v2 hand = Inr (0, [])"
    if "\<forall>c \<in> set hand. snd c = snd (hd hand)"
  proof -
    from ne that have "is_flush (map snd hand)" by (rule same_suit_flush)
    then show ?thesis by (simp add: broadway_v01 [OF s] broadway_v2 [OF s])
  qed
  moreover
  have "evaluate_hand_v01 hand = Inr (''ST'', 5, hand) \<and> evaluate_hand_v2 hand = Inr (5, [- 14])"
    if "\<exists>c \<in> set hand. snd c \<noteq> snd (hd hand)"
  proof -
    from that obtain c where "c \<in> set hand" "snd c \<noteq> snd (hd hand)" by blast
    with h have "\<not> is_flush (map snd hand)" by (intro mixed_suits_not_flush)
    then show ?thesis by (simp add: broadway_v01 [OF s] broadway_v2 [OF s])
  qed
  ultimately show ?thesis by blast
qed

theorem C6_royal_flush_or_straight_witness:
  "mset (map fst [(10 :: int, CHR ''s''), (11, CHR ''s''), (12, CHR ''s''), (13, CHR ''s''), (14, CHR ''s'')])
     = mset [10, 11, 12, 13, 14]
   \<and> evaluate_hand_v01 [(10, CHR ''s''), (11, CHR ''s''), (12, CHR ''s''), (13, CHR ''s''), (14, CHR ''s'')]
     = Inr (''RF'', 10, [(10, CHR ''s''), (11, CHR ''s''), (12, CHR ''s''), (13, CHR ''s''), (14, CHR ''s'')])
   \<and> evaluate_hand_v2 [(10, CHR ''s''), (11, CHR ''s''), (12, CHR ''s''), (13, CHR ''s''), (14, CHR ''s'')]
     = Inr (0, [])
   \<and> mset (map fst [(14 :: int, CHR ''c''), (10, CHR ''h''), (12, CHR ''s''), (13, CHR ''d''), (11, CHR ''c'')])
     = mset [10, 11, 12, 13, 14]
   \<and> evaluate_hand_v01 [(14, CHR ''c''), (10, CHR ''h''), (12, CHR ''s''), (13, CHR ''d''), (11, CHR ''c'')]
     = Inr (''ST'', 5, [(14, CHR ''c''), (10, CHR ''h''), (12, CHR ''s''), (13, CHR ''d''), (11, CHR ''c'')])
   \<and> evaluate_hand_v2 [(14, CHR ''c''), (10, CHR ''h''), (12, CHR ''s''), (13, CHR ''d''), (11, CHR ''c'')]
     = Inr (5, [- 14])"
  using C6_royal_flush_or_straight
      [of "[(10, CHR ''s''), (11, CHR ''s''), (12, CHR ''s''), (13, CHR ''s''), (14, CHR ''s'')]"]
    C6_royal_flush_or_straight
      [of "[(14, CHR ''c''), (10, CHR ''h''), (12, CHR ''s''), (13, CHR ''d''), (11, CHR ''c'')]"]
  by (simp add: add_mset_commute)

text \<open>
  C7. \<open>texas_holdem_score\<close> raises its \<open>ValueError("Exactly seven cards are required")\<close>,
  the error the specification calls InvalidCardCount, exactly when the input has not
  seven cards, and it returns normally exactly when the input has seven cards (distinct
  or not).
\<close>

theorem C7_exactly_seven_cards:
  "(texas_holdem_score seven_cards = Inl (ValueError ''Exactly seven cards are required''))
      = (length seven_cards \<noteq> 7)
   \<and> (\<exists>res. texas_holdem_score seven_cards = Inr res) = (length seven_cards = 7)"
proof (cases "length seven_cards = 7")
  case False
  then show ?thesis by (simp add: texas_holdem_score_def)
next
  case True
  have "\<forall>c \<in> set (combinations seven_cards 5). length c = 5"
    by (simp add: combinations_length)
  then obtain best where "score_loop (combinations seven_cards 5) (None, 0, [], []) = Inr best"
    using score_loop_total by blast
  with True show ?thesis by (simp add: texas_holdem_score_def bind_err_def del: split_paired_Ex)
qed

theorem C7_exactly_seven_cards_witness:
  "length [(14 :: int, CHR ''c''), (14, CHR ''h''), (14, CHR ''s''), (14, CHR ''d''),
        (13, CHR ''c''), (13, CHR ''h''), (2, CHR ''d'')] = 7
   \<and> (\<exists>res. texas_holdem_score
         [(14, CHR ''c''), (14, CHR ''h''), (14, CHR ''s''), (14, CHR ''d''),
          (13, CHR ''c''), (13, CHR ''h''), (2, CHR ''d'')] = Inr res)
   \<and> length [(14 :: int, CHR ''c''), (14, CHR ''h'')] \<noteq> 7
   \<and> texas_holdem_score [(14, CHR ''c''), (14, CHR ''h'')]
       = Inl (ValueError ''Exactly seven cards are required'')"
  using C7_exactly_seven_cards
      [of "[(14, CHR ''c''), (14, CHR ''h''), (14, CHR ''s''), (14, CHR ''d''),
            (13, CHR ''c''), (13, CHR ''h''), (2, CHR ''d'')]"]
    C7_exactly_seven_cards [of "[(14, CHR ''c''), (14, CHR ''h'')]"]
  by simp

text \<open>
  C8. For the four aces with Kc Kh 2d, listed in any order, \<open>texas_holdem_score\<close>
  returns four of a kind (label \<open>4k\<close>, rank 8) on cards whose ranks are the four aces
  and a king, not the 2; the tie-break key of these cards is \<open>[14, 13]\<close>, which
  pokercombos.py stores negated.
\<close>

theorem C8_quad_aces_king_kicker:
  assumes "mset seven_cards =
     mset [(14, CHR ''c''), (14, CHR ''h''), (14, CHR ''s''), (14, CHR ''d''),
           (13, CHR ''c''), (13, CHR ''h''), (2, CHR ''d'')]"
  shows "\<exists>best_cards. texas_holdem_score seven_cards = Inr (Some ''4k'', 8, best_cards)
      \<and> mset (map fst best_cards) = mset [14, 14, 14, 14, 13]
      \<and> evaluate_hand_v2 best_cards = Inr (2, [- 14, - 13])"
proof -
  let ?cs = "[(14, CHR ''c''), (14, CHR ''h''), (14, CHR ''s''), (14, CHR ''d''),
           (13, CHR ''c''), (13, CHR ''h''), (2, CHR ''d'')] :: playing_card list"
  have e: "texas_holdem_score ?cs
      = Inr (Some ''4k'', 8,
          [(14, CHR ''c''), (14, CHR ''h''), (14, CHR ''s''), (14, CHR ''d''), (13, CHR ''c'')])"
    unfolding texas_holdem_score_def score_loop_fold by code_simp
  have "length ?cs = 7" by simp
  from texas_holdem_score_perm [OF assms [symmetric] this] e
  obtain bc where b: "texas_holdem_score seven_cards = Inr (Some ''4k'', 8, bc)"
    and m: "mset (map fst bc) = mset [14, 14, 14, 14, 13]"
    by auto
  have "mset [14, 14, 14, 14, 13 :: int] = mset [13, 14, 14, 14, 14]"
    by (simp add: add_mset_commute)
  with m have "mset (map fst bc) = mset [13, 14, 14, 14, 14]" by (rule trans)
  moreover have "sorted [13, 14, 14, 14, 14 :: int]" by simp
  ultimately have "sort (map fst bc) = [13, 14, 14, 14, 14]" by (rule mset_ranks_sort)
  then have "evaluate_hand_v2 bc = Inr (2, [- 14, - 13])" by (rule quad_aces_king_v2)
  with b m show ?thesis by blast
qed

theorem C8_quad_aces_king_kicker_witness:
  "mset [(2, CHR ''d''), (13, CHR ''h''), (14, CHR ''c''), (14, CHR ''h''), (14, CHR ''s''),
         (14, CHR ''d''), (13, CHR ''c'') :: playing_card]
     = mset [(14, CHR ''c''), (14, CHR ''h''), (14, CHR ''s''), (14, CHR ''d''),
           (13, CHR ''c''), (13, CHR ''h''), (2, CHR ''d'')]
   \<and> (\<exists>best_cards.
        texas_holdem_score
          [(2, CHR ''d''), (13, CHR ''h''), (14, CHR ''c''), (14, CHR ''h''), (14, CHR ''s''),
           (14, CHR ''d''), (13, CHR ''c'')] = Inr (Some ''4k'', 8, best_cards)
      \<and> mset (map fst best_cards) = mset [14, 14, 14, 14, 13]
      \<and> evaluate_hand_v2 best_cards = Inr (2, [- 14, - 13]))
   \<and> texas_holdem_score
          [(2, CHR ''d''), (13, CHR ''h''), (14, CHR ''c''), (14, CHR ''h''), (14, CHR ''s''),
           (14, CHR ''d''), (13, CHR ''c'')]
       = Inr (Some ''4k'', 8,
          [(13, CHR ''h''), (14, CHR ''c''), (14, CHR ''h''), (14, CHR ''s''), (14, CHR ''d'')])"
proof -
  let ?cs = "[(2, CHR ''d''), (13, CHR ''h''), (14, CHR ''c''), (14, CHR ''h''), (14, CHR ''s''),
         (14, CHR ''d''), (13, CHR ''c'')] :: playing_card list"
  have m: "mset ?cs = mset [(14, CHR ''c''), (14, CHR ''h''), (14, CHR ''s''), (14, CHR ''d''),
           (13, CHR ''c''), (13, CHR ''h''), (2, CHR ''d'')]"
    by (simp add: add_mset_commute)
  have e: "texas_holdem_score ?cs
       = Inr (Some ''4k'', 8,
          [(13, CHR ''h''), (14, CHR ''c''), (14, CHR ''h''), (14, CHR ''s''), (14, CHR ''d'')])"
    unfolding texas_holdem_score_def score_loop_fold by code_simp
  from C8_quad_aces_king_kicker [OF m] m e show ?thesis by (intro conjI)
qed

text \<open>
  C9. On every hand of five cards both classifiers return normally, and the label and
  rank of poker.py correspond to the category index of pokercombos.py in the table of
  the ten categories. (The cards need not even be distinct.)
\<close>

theorem C9_classifiers_agree:
  assumes "length hand = 5"
  shows "\<exists>t r cs k. evaluate_hand_v01 hand = Inr (t, r, cs) \<and> evaluate_hand_v2 hand = Inr k
            \<and> (t, r, fst k) \<in> set category_table"
  using assms by (rule eval5_agree)

theorem C9_classifiers_agree_witness:
  "length [(14 :: int, CHR ''c''), (14, CHR ''h''), (9, CHR ''s''), (9, CHR ''d''), (2, CHR ''c'')] = 5
   \<and> (\<exists>t r cs k.
        evaluate_hand_v01 [(14, CHR ''c''), (14, CHR ''h''), (9, CHR ''s''), (9, CHR ''d''), (2, CHR ''c'')]
          = Inr (t, r, cs)
        \<and> evaluate_hand_v2 [(14, CHR ''c''), (14, CHR ''h''), (9, CHR ''s''), (9, CHR ''d''), (2, CHR ''c'')]
          = Inr k
        \<and> (t, r, fst k) \<in> set category_table)"
  using C9_classifiers_agree
    [of "[(14, CHR ''c''), (14, CHR ''h''), (9, CHR ''s''), (9, CHR ''d''), (2, CHR ''c'')]"]
  by simp

text \<open>
  C10. On seven cards \<open>texas_holdem_score\<close> never returns its initial
  \<open>(None, 0, [])\<close>: the label is one of the ten labels, with its rank between 1 and
  10, and label, rank and cards are what \<open>evaluate_hand\<close> returned for one of the
  five-card combinations of the input, the cards being taken from that combination.
\<close>

theorem C10_never_the_sentinel:
  assumes "length seven_cards = 7"
  shows "\<exists>t r best_cards combo.
           texas_holdem_score seven_cards = Inr (Some t, r, best_cards)
         \<and> (t, r) \<in> set hand_labels \<and> 1 \<le> r \<and> r \<le> 10
         \<and> combo \<in> set (combinations seven_cards 5) \<and> length combo = 5
         \<and> subseq combo seven_cards
         \<and> evaluate_hand_v01 combo = Inr (t, r, best_cards)
         \<and> subseq best_cards combo"
proof -
  let ?combos = "combinations seven_cards 5"
  have "\<forall>c \<in> set ?combos. length c = 5" by (simp add: combinations_length)
  then obtain best where b: "score_loop ?combos (None, 0, [], []) = Inr best"
    using score_loop_total by blast
  have "length ?combos = 21" using assms by (simp add: combinations_count eval_nat_numeral)
  then have "?combos \<noteq> []" by auto
  with b obtain c t r bc where c: "c \<in> set ?combos" "evaluate_hand_v01 c = Inr (t, r, bc)"
      "best = (Some t, r, bc, sorted_desc (map fst bc))"
    using score_loop_no_sentinel by blast
  from c(2) have l: "(t, r) \<in> set hand_labels" by (rule evaluate_hand_v01_label)
  then have "1 \<le> r \<and> r \<le> 10" by (auto simp: hand_labels_def)
  moreover from c(1) have "length c = 5" "subseq c seven_cards"
    by (rule combinations_length, rule combinations_sub)
  moreover from c(2) have "subseq bc c" by (rule evaluate_hand_v01_subseq)
  moreover have "texas_holdem_score seven_cards = Inr (Some t, r, bc)"
    using assms b c(3) by (simp add: texas_holdem_score_def bind_err_def)
  ultimately show ?thesis using l c(1,2) by blast
qed

theorem C10_never_the_sentinel_witness:
  "length [(14 :: int, CHR ''c''), (14, CHR ''h''), (14, CHR ''s''), (14, CHR ''d''),
        (13, CHR ''c''), (13, CHR ''h''), (2, CHR ''d'')] = 7
   \<and> (\<exists>t r best_cards combo.
         texas_holdem_score
           [(14, CHR ''c''), (14, CHR ''h''), (14, CHR ''s''), (14, CHR ''d''),
            (13, CHR ''c''), (13, CHR ''h''), (2, CHR ''d'')] = Inr (Some t, r, best_cards)
       \<and> (t, r) \<in> set hand_labels \<and> 1 \<le> r \<and> r \<le> 10
       \<and> combo \<in> set (combinations
            [(14, CHR ''c''), (14, CHR ''h''), (14, CHR ''s''), (14, CHR ''d''),
             (13, CHR ''c''), (13, CHR ''h''), (2, CHR ''d'')] 5) \<and> length combo = 5
       \<and> subseq combo
            [(14, CHR ''c''), (14, CHR ''h''), (14, CHR ''s''), (14, CHR ''d''),
             (13, CHR ''c''), (13, CHR ''h''), (2, CHR ''d'')]
       \<and> evaluate_hand_v01 combo = Inr (t, r, best_cards)
       \<and> subseq best_cards combo)"
  using C10_never_the_sentinel
      [of "[(14, CHR ''c''), (14, CHR ''h''), (14, CHR ''s''), (14, CHR ''d''),
            (13, CHR ''c''), (13, CHR ''h''), (2, CHR ''d'')]"]
  by simp

end
